theory Spec2Isabelle
  imports Main "HOL-Library.Word" "HOL-Library.Signed_Division"
begin

unbundle bit_operations_syntax

section \<open>Data model of package kid\<close>

text \<open>A Go \<^verbatim>\<open>byte\<close> is an unsigned 8-bit integer; shifts and bitwise operators on it
  stay within 8 bits.\<close>

type_synonym byte = "8 word"

text \<open>\<^verbatim>\<open>type ID [rawLen]byte\<close> with \<^verbatim>\<open>rawLen = 10\<close>: a value of exactly ten bytes.
  The selector \<open>byteK\<close> is the source's \<^verbatim>\<open>id[K]\<close>.\<close>

datatype ID = ID (byte0: byte) (byte1: byte) (byte2: byte) (byte3: byte) (byte4: byte)
  (byte5: byte) (byte6: byte) (byte7: byte) (byte8: byte) (byte9: byte)

datatype error = ErrInvalidID

definition rawLen :: nat where
  "rawLen = 10"

definition encodedLen :: nat where
  "encodedLen = 16"

text \<open>The alphabet constant, as the bytes of the Go string literal.\<close>

definition encoding :: "byte list" where
  "encoding = map of_char ''0123456789bcdefghjklmnpqrstvwxyz''"

definition maxByte :: byte where
  "maxByte = 0xFF"

text \<open>\<^verbatim>\<open>var nilID ID\<close>: the zero value of the array type.\<close>

definition nilID :: ID where
  "nilID = ID 0 0 0 0 0 0 0 0 0 0"

text \<open>The decoding map \<^verbatim>\<open>dec [256]byte\<close> as \<^verbatim>\<open>init()\<close> leaves it: every cell is first set
  to \<open>maxByte\<close>, then the cell of the i-th alphabet symbol is set to \<open>i\<close>.\<close>

definition dec :: "byte list" where
  "dec = fold (\<lambda>i d. d[unat (encoding ! i) := of_nat i]) [0..<length encoding]
           (replicate 256 maxByte)"

text \<open>\<^verbatim>\<open>func (id ID) Bytes() []byte\<close>: the slice \<^verbatim>\<open>id[:]\<close>.\<close>

definition Bytes :: "ID \<Rightarrow> byte list" where
  "Bytes x = [byte0 x, byte1 x, byte2 x, byte3 x, byte4 x,
              byte5 x, byte6 x, byte7 x, byte8 x, byte9 x]"

definition IsNil :: "ID \<Rightarrow> bool" where
  "IsNil x = (x = nilID)"

section \<open>The codec\<close>

text \<open>\<^verbatim>\<open>encode(dst, id)\<close> writes sixteen bytes into \<open>dst\<close>; the model returns them in
  index order. Go gives \<^verbatim>\<open>&\<close> the precedence of the shifts and \<^verbatim>\<open>|\<close> a lower one, so
  \<^verbatim>\<open>(id[9]>>5)|(id[8]<<3)&0x1F\<close> is \<^verbatim>\<open>(id[9]>>5) | ((id[8]<<3) & 0x1F)\<close>.\<close>

definition encode :: "ID \<Rightarrow> byte list" where
  "encode x =
    [ encoding ! unat (drop_bit 3 (byte0 x)),
      encoding ! unat ((drop_bit 6 (byte1 x) AND 0x1F) OR (push_bit 2 (byte0 x) AND 0x1F)),
      encoding ! unat (drop_bit 1 (byte1 x) AND 0x1F),
      encoding ! unat ((drop_bit 4 (byte2 x) AND 0x1F) OR (push_bit 4 (byte1 x) AND 0x1F)),
      encoding ! unat (drop_bit 7 (byte3 x) OR (push_bit 1 (byte2 x) AND 0x1F)),
      encoding ! unat (drop_bit 2 (byte3 x) AND 0x1F),
      encoding ! unat (drop_bit 5 (byte4 x) OR (push_bit 3 (byte3 x) AND 0x1F)),
      encoding ! unat (byte4 x AND 0x1F),
      encoding ! unat (drop_bit 3 (byte5 x)),
      encoding ! unat ((drop_bit 6 (byte6 x) AND 0x1F) OR (push_bit 2 (byte5 x) AND 0x1F)),
      encoding ! unat (drop_bit 1 (byte6 x) AND 0x1F),
      encoding ! unat ((drop_bit 4 (byte7 x) AND 0x1F) OR (push_bit 4 (byte6 x) AND 0x1F)),
      encoding ! unat (drop_bit 7 (byte8 x) OR (push_bit 1 (byte7 x) AND 0x1F)),
      encoding ! unat (drop_bit 2 (byte8 x) AND 0x1F),
      encoding ! unat (drop_bit 5 (byte9 x) OR (push_bit 3 (byte8 x) AND 0x1F)),
      encoding ! unat (byte9 x AND 0x1F) ]"

text \<open>\<^verbatim>\<open>func (id ID) String() string\<close>: the sixteen bytes of \<open>encode\<close>; a Go string is
  its byte sequence.\<close>

definition String :: "ID \<Rightarrow> byte list" where
  "String x = encode x"

text \<open>\<^verbatim>\<open>decode(id *ID, src []byte) bool\<close>. The bounds check \<^verbatim>\<open>_ = src[15]\<close> panics on
  a shorter slice: that is \<open>None\<close>. Otherwise the result is the receiver after the call
  and the returned flag. Byte 9 is written before the check of the last character, so
  on \<open>False\<close> the receiver holds the new byte 9 and its old bytes 0 to 8.\<close>

definition decode :: "ID \<Rightarrow> byte list \<Rightarrow> (ID \<times> bool) option" where
  "decode x src =
    (if length src < 16 then None
     else
       let d = (\<lambda>i. dec ! unat (src ! i));
           id9 = push_bit 5 (d 14) OR d 15
       in if encoding ! unat (id9 AND 0x1F) \<noteq> src ! 15
          then Some (ID (byte0 x) (byte1 x) (byte2 x) (byte3 x) (byte4 x)
                        (byte5 x) (byte6 x) (byte7 x) (byte8 x) id9, False)
          else
            let id8 = push_bit 7 (d 12) OR push_bit 2 (d 13) OR drop_bit 3 (d 14);
                id7 = push_bit 4 (d 11) OR drop_bit 1 (d 12);
                id6 = push_bit 6 (d 9) OR push_bit 1 (d 10) OR drop_bit 4 (d 11);
                id5 = push_bit 3 (d 8) OR drop_bit 2 (d 9);
                id4 = push_bit 5 (d 6) OR d 7;
                id3 = push_bit 7 (d 4) OR push_bit 2 (d 5) OR drop_bit 3 (d 6);
                id2 = push_bit 4 (d 3) OR drop_bit 1 (d 4);
                id1 = push_bit 6 (d 1) OR push_bit 1 (d 2) OR drop_bit 4 (d 3);
                id0 = push_bit 3 (d 0) OR drop_bit 2 (d 1)
            in Some (ID id0 id1 id2 id3 id4 id5 id6 id7 id8 id9, True))"

text \<open>The loop \<^verbatim>\<open>for _, c := range text { if dec[c] == maxByte { return ErrInvalidID } }\<close>:
  \<open>True\<close> when the loop runs to its end, \<open>False\<close> when it returns early.\<close>

fun chars_ok :: "byte list \<Rightarrow> bool" where
  "chars_ok [] = True"
| "chars_ok (c # cs) = (if dec ! unat c = maxByte then False else chars_ok cs)"

text \<open>\<^verbatim>\<open>func (id *ID) UnmarshalText(text []byte) error\<close>: the receiver after the call and
  the returned error (\<open>None\<close> for \<^verbatim>\<open>nil\<close>). The outer \<open>None\<close> is a panic inside
  \<open>decode\<close>.\<close>

definition UnmarshalText :: "ID \<Rightarrow> byte list \<Rightarrow> (ID \<times> error option) option" where
  "UnmarshalText x text =
    (if length text \<noteq> encodedLen then Some (x, Some ErrInvalidID)
     else if \<not> chars_ok text then Some (x, Some ErrInvalidID)
     else case decode x text of
            None \<Rightarrow> None
          | Some (y, ok) \<Rightarrow>
              if \<not> ok then Some (nilID, Some ErrInvalidID) else Some (y, None))"

text \<open>\<^verbatim>\<open>func FromString(str string) (ID, error)\<close>: a fresh zero \<open>ID\<close> is the receiver.\<close>

definition FromString :: "byte list \<Rightarrow> (ID \<times> error option) option" where
  "FromString str = UnmarshalText (ID 0 0 0 0 0 0 0 0 0 0) str"

text \<open>\<^verbatim>\<open>func FromBytes(b []byte) (ID, error)\<close>: only the length is checked.\<close>

definition FromBytes :: "byte list \<Rightarrow> ID \<times> error option" where
  "FromBytes b =
    (if length b \<noteq> rawLen then (nilID, Some ErrInvalidID)
     else (ID (b ! 0) (b ! 1) (b ! 2) (b ! 3) (b ! 4) (b ! 5) (b ! 6) (b ! 7) (b ! 8) (b ! 9),
           None))"

section \<open>Ordering\<close>

text \<open>Modelled from the spec: \<^verbatim>\<open>bytes.Compare\<close> belongs to the Go standard library, not to
  the repository. The spec and the doc comment of \<open>ID.Compare\<close> give its contract: it
  compares two byte slices lexicographically, bytes as unsigned values, a proper prefix
  being smaller, and returns \<open>-1\<close>, \<open>0\<close> or \<open>1\<close>. Go compares strings the same way, so
  this function is also the lexicographic comparison of two encoded texts.\<close>

fun bytes_Compare :: "byte list \<Rightarrow> byte list \<Rightarrow> int" where
  "bytes_Compare [] [] = 0"
| "bytes_Compare [] (y # ys) = - 1"
| "bytes_Compare (x # xs) [] = 1"
| "bytes_Compare (x # xs) (y # ys) =
     (if x < y then - 1 else if y < x then 1 else bytes_Compare xs ys)"

text \<open>\<^verbatim>\<open>func (id ID) Compare(other ID) int\<close>: \<^verbatim>\<open>bytes.Compare(id[:8], other[:8])\<close>.\<close>

definition Compare :: "ID \<Rightarrow> ID \<Rightarrow> int" where
  "Compare x other = bytes_Compare (take 8 (Bytes x)) (take 8 (Bytes other))"

text \<open>For the proofs: the three-way comparison of two numbers, and the value of a list of
  digits in base \<open>B\<close>, most significant digit first.\<close>

definition cmp3 :: "nat \<Rightarrow> nat \<Rightarrow> int" where
  "cmp3 m n = (if m < n then - 1 else if n < m then 1 else 0)"

fun num :: "nat \<Rightarrow> nat list \<Rightarrow> nat" where
  "num B [] = 0"
| "num B (x # xs) = x * B ^ length xs + num B xs"

section \<open>The timestamp and sequence generator\<close>

text \<open>Go's \<^verbatim>\<open>int64\<close>: \<open>+\<close>, \<open>-\<close> and \<open>*\<close> wrap around, comparisons are signed
  (\<open>\<le>s\<close>), \<^verbatim>\<open>>>\<close> is the arithmetic shift \<open>signed_drop_bit\<close>.\<close>

type_synonym int64 = "64 word"

definition nanoPerMilli :: int64 where
  "nanoPerMilli = 1000000"

text \<open>Go's \<^verbatim>\<open>/\<close> on \<^verbatim>\<open>int64\<close> truncates towards zero; the quotient wraps in the one
  case where it does not fit.\<close>

definition div_int64 :: "int64 \<Rightarrow> int64 \<Rightarrow> int64" where
  "div_int64 a b = word_of_int (sint a sdiv sint b)"

text \<open>\<^verbatim>\<open>func getTS() (milli, seq int64)\<close>, run under \<^verbatim>\<open>timeMu\<close>, so calls are
  serialised. The arguments are the reading \<^verbatim>\<open>timeNow().UnixNano()\<close> of this call and
  the package variable \<^verbatim>\<open>lastTime\<close> before it; the result is the returned pair and
  \<^verbatim>\<open>lastTime\<close> after it.\<close>

definition getTS :: "int64 \<Rightarrow> int64 \<Rightarrow> (int64 \<times> int64) \<times> int64" where
  "getTS nano lastTime =
    (let milli = div_int64 nano nanoPerMilli;
         seq = signed_drop_bit 8 (nano - milli * nanoPerMilli);
         now = push_bit 12 milli + seq
     in if now \<le>s lastTime
        then (let now = lastTime + 1;
                  milli = signed_drop_bit 12 now;
                  seq = now AND 0xfff
              in ((milli, seq), now))
        else ((milli, seq), now))"


text \<open>A sequence of calls, one clock reading per call: each step's result, with
  \<^verbatim>\<open>lastTime\<close> threaded through.\<close>

fun run_getTS :: "int64 \<Rightarrow> int64 list \<Rightarrow> ((int64 \<times> int64) \<times> int64) list" where
  "run_getTS lastTime [] = []"
| "run_getTS lastTime (nano # rest) =
     (let r = getTS nano lastTime in r # run_getTS (snd r) rest)"

text \<open>For the proofs: the value \<^verbatim>\<open>now\<close> that \<open>getTS\<close> derives from the clock reading
  alone, and the combined value \<^verbatim>\<open>milli*4096 + seq\<close> of a returned pair.\<close>

definition clock_tick :: "int64 \<Rightarrow> int64" where
  "clock_tick nano =
    (let milli = div_int64 nano nanoPerMilli;
         seq = signed_drop_bit 8 (nano - milli * nanoPerMilli)
     in push_bit 12 milli + seq)"

definition tick :: "int64 \<times> int64 \<Rightarrow> int64" where
  "tick p = fst p * 4096 + snd p"

section \<open>Definitions for the proofs\<close>

text \<open>The sixteen 5-bit groups of an identifier, most significant first: the index
  expressions of \<open>encode\<close> with the mask written once (see \<open>encode_quints\<close>).\<close>

definition quints :: "ID \<Rightarrow> byte list" where
  "quints x =
    [ drop_bit 3 (byte0 x) AND mask 5,
      (drop_bit 6 (byte1 x) OR push_bit 2 (byte0 x)) AND mask 5,
      drop_bit 1 (byte1 x) AND mask 5,
      (drop_bit 4 (byte2 x) OR push_bit 4 (byte1 x)) AND mask 5,
      (drop_bit 7 (byte3 x) OR push_bit 1 (byte2 x)) AND mask 5,
      drop_bit 2 (byte3 x) AND mask 5,
      (drop_bit 5 (byte4 x) OR push_bit 3 (byte3 x)) AND mask 5,
      byte4 x AND mask 5,
      drop_bit 3 (byte5 x) AND mask 5,
      (drop_bit 6 (byte6 x) OR push_bit 2 (byte5 x)) AND mask 5,
      drop_bit 1 (byte6 x) AND mask 5,
      (drop_bit 4 (byte7 x) OR push_bit 4 (byte6 x)) AND mask 5,
      (drop_bit 7 (byte8 x) OR push_bit 1 (byte7 x)) AND mask 5,
      drop_bit 2 (byte8 x) AND mask 5,
      (drop_bit 5 (byte9 x) OR push_bit 3 (byte8 x)) AND mask 5,
      byte9 x AND mask 5 ]"

section \<open>The alphabet and the decoding map\<close>

lemma byte_0x1F_is_mask: "(0x1F::byte) = mask 5" by (simp add: mask_eq_exp_minus_1)

lemma encoding_lit: "encoding = [0x30,0x31,0x32,0x33,0x34,0x35,0x36,0x37,0x38,0x39,
  0x62,0x63,0x64,0x65,0x66,0x67,0x68,0x6a,0x6b,0x6c,0x6d,0x6e,0x70,0x71,0x72,0x73,0x74,0x76,0x77,0x78,0x79,0x7a]"
  by (simp add: encoding_def)

lemma length_encoding: "length encoding = 32" by (simp add: encoding_def)

lemma dec_encoding_upt: "\<forall>i\<in>set [0..<32]. dec ! unat (encoding ! i) = of_nat i"
  by code_simp

lemma dec_encoding: "i < 32 \<Longrightarrow> dec ! unat (encoding ! i) = of_nat i"
  using dec_encoding_upt by simp

lemma unat_mask5: "unat ((v::byte) AND mask 5) < 32"
  using and_mask_less' [of 5 v] by (simp add: word_less_nat_alt)

lemma dec_enc_mask: "dec ! unat (encoding ! unat (v AND mask 5)) = v AND mask 5"
  using dec_encoding [OF unat_mask5, of v] by simp

lemma fold_update_nth:
  "j < length d0 \<Longrightarrow> fold (\<lambda>i d. d[f i := g i]) is d0 ! j \<noteq> d0 ! j \<Longrightarrow> j \<in> f ` set is"
proof (induction "is" arbitrary: d0)
  case Nil then show ?case by simp
next
  case (Cons a "is")
  show ?case
  proof (cases "j = f a")
    case True then show ?thesis by simp
  next
    case False
    with Cons.prems have "fold (\<lambda>i d. d[f i := g i]) is (d0[f a := g a]) ! j \<noteq> (d0[f a := g a]) ! j"
      by simp
    with Cons.IH [of "d0[f a := g a]"] Cons.prems(1) show ?thesis by simp
  qed
qed

lemma dec_not_max: "dec ! unat (c::byte) \<noteq> maxByte \<Longrightarrow> c \<in> set encoding"
proof -
  assume a: "dec ! unat c \<noteq> maxByte"
  have lt: "unat c < 256" using unsigned_less [of c, where ?'a=nat] by simp
  have "unat c \<in> (\<lambda>i. unat (encoding ! i)) ` set [0..<length encoding]"
    using a lt fold_update_nth [of "unat c" "replicate 256 maxByte" "\<lambda>i. unat (encoding ! i)" of_nat "[0..<length encoding]"]
    by (simp add: dec_def)
  then obtain i where "i < length encoding" "unat c = unat (encoding ! i)" by auto
  then show ?thesis by (metis nth_mem word_unat_eq_iff)
qed

lemma in_encoding_dec: "c \<in> set encoding \<Longrightarrow> \<exists>v. dec ! unat c = v AND mask 5 \<and> encoding ! unat (v AND mask 5) = c"
proof -
  assume "c \<in> set encoding"
  then obtain i where i: "i < 32" "c = encoding ! i"
    by (metis in_set_conv_nth length_encoding)
  have u: "unat (of_nat i :: byte) = i" using i(1) by (simp add: unat_of_nat)
  have "(of_nat i :: byte) < 2 ^ 5" using i(1) u by (simp add: word_less_nat_alt)
  then have "(of_nat i :: byte) AND mask 5 = of_nat i" by (rule less_mask_eq)
  then show ?thesis using dec_encoding [OF i(1)] i(2) u by metis
qed

section \<open>Decoding an encoded identifier\<close>

lemma byte_eqI:
  fixes a b :: byte
  assumes "bit a 0 = bit b 0" "bit a 1 = bit b 1" "bit a 2 = bit b 2" "bit a 3 = bit b 3"
    "bit a 4 = bit b 4" "bit a 5 = bit b 5" "bit a 6 = bit b 6" "bit a 7 = bit b 7"
  shows "a = b"
proof (rule bit_word_eqI)
  fix n assume "n < LENGTH(8)"
  then have "n \<in> {0, 1, 2, 3, 4, 5, 6, 7}"
    by auto
  with assms show "bit a n = bit b n" by auto
qed

lemma byte_bit_ge8: "8 \<le> n \<Longrightarrow> bit (w::byte) n = False"
  by (auto dest: bit_imp_le_length)

lemma bit_mult2: "bit (a * 2) n = bit (2 * a) n" for a :: byte
  by (simp add: mult.commute)

lemma Suc_Suc_0_eq: "Suc (Suc 0) = 2" "Suc (Suc (Suc 0)) = 3"
  by simp_all

lemmas byte_bits = bit_simps byte_bit_ge8 bit_mult2 Suc_Suc_0_eq

lemma idx_mask_shr3: "drop_bit 3 (a::byte) = drop_bit 3 a AND mask 5"
  by (rule byte_eqI) (simp_all add: byte_bits)
lemma idx_mask_or: "(x AND 0x1F) OR (y AND 0x1F) = (x OR y) AND mask (5::nat)" for x y :: byte
  unfolding byte_0x1F_is_mask by (rule byte_eqI) (auto simp add: byte_bits)
lemma idx_mask_shr7: "drop_bit 7 (a::byte) OR (y AND 0x1F) = (drop_bit 7 a OR y) AND mask 5"
  unfolding byte_0x1F_is_mask by (rule byte_eqI) (simp_all add: byte_bits)
lemma idx_mask_shr5: "drop_bit 5 (a::byte) OR (y AND 0x1F) = (drop_bit 5 a OR y) AND mask 5"
  unfolding byte_0x1F_is_mask by (rule byte_eqI) (simp_all add: byte_bits)

lemma encode_quints: "encode x = map (\<lambda>v. encoding ! unat v) (quints x)"
  unfolding encode_def quints_def idx_mask_or idx_mask_shr7 idx_mask_shr5
  by (simp add: byte_0x1F_is_mask idx_mask_shr3 [symmetric])

lemma byte0_of_quints: "push_bit 3 (drop_bit 3 a AND mask 5) OR drop_bit 2 ((drop_bit 6 b OR push_bit 2 a) AND mask 5) = a" for a b :: byte
  by (rule byte_eqI) (simp_all add: byte_bits)
lemma byte1_of_quints: "push_bit 6 ((drop_bit 6 b OR push_bit 2 a) AND mask 5) OR push_bit 1 (drop_bit 1 b AND mask 5) OR drop_bit 4 ((drop_bit 4 c OR push_bit 4 b) AND mask 5) = b" for a b c :: byte
  by (rule byte_eqI) (simp_all add: byte_bits)
lemma byte2_of_quints: "push_bit 4 ((drop_bit 4 c OR push_bit 4 b) AND mask 5) OR drop_bit 1 ((drop_bit 7 d OR push_bit 1 c) AND mask 5) = c" for b c d :: byte
  by (rule byte_eqI) (simp_all add: byte_bits)
lemma byte3_of_quints: "push_bit 7 ((drop_bit 7 d OR push_bit 1 c) AND mask 5) OR push_bit 2 (drop_bit 2 d AND mask 5) OR drop_bit 3 ((drop_bit 5 e OR push_bit 3 d) AND mask 5) = d" for c d e :: byte
  by (rule byte_eqI) (simp_all add: byte_bits)
lemma byte4_of_quints: "push_bit 5 ((drop_bit 5 e OR push_bit 3 d) AND mask 5) OR (e AND mask 5) = e" for d e :: byte
  by (rule byte_eqI) (simp_all add: byte_bits)
lemma last_char_check: "(push_bit 5 d OR (e AND mask 5)) AND 0x1F = e AND mask 5" for d e :: byte
  unfolding byte_0x1F_is_mask by (rule byte_eqI) (simp_all add: byte_bits)

lemma length_encode: "length (encode x) = 16" by (simp add: encode_def)

lemma dec_enc_not_max: "dec ! unat (encoding ! unat ((v::byte) AND mask 5)) \<noteq> maxByte"
proof -
  have "(v::byte) AND mask 5 \<noteq> maxByte"
    using unat_mask5 [of v] by (auto simp add: maxByte_def)
  then show ?thesis by (simp add: dec_enc_mask)
qed

lemma chars_ok_encode: "chars_ok (encode x)"
  by (simp add: encode_quints quints_def dec_enc_not_max)



lemma decode_list:
  "decode y [s0, s1, s2, s3, s4, s5, s6, s7, s8, s9, s10, s11, s12, s13, s14, s15] =
    (if encoding ! unat ((push_bit 5 (dec ! unat s14) OR dec ! unat s15) AND 0x1F) \<noteq> s15
     then Some (ID (byte0 y) (byte1 y) (byte2 y) (byte3 y) (byte4 y)
                   (byte5 y) (byte6 y) (byte7 y) (byte8 y)
                   (push_bit 5 (dec ! unat s14) OR dec ! unat s15), False)
     else Some (ID (push_bit 3 (dec ! unat s0) OR drop_bit 2 (dec ! unat s1))
                   (push_bit 6 (dec ! unat s1) OR push_bit 1 (dec ! unat s2) OR drop_bit 4 (dec ! unat s3))
                   (push_bit 4 (dec ! unat s3) OR drop_bit 1 (dec ! unat s4))
                   (push_bit 7 (dec ! unat s4) OR push_bit 2 (dec ! unat s5) OR drop_bit 3 (dec ! unat s6))
                   (push_bit 5 (dec ! unat s6) OR dec ! unat s7)
                   (push_bit 3 (dec ! unat s8) OR drop_bit 2 (dec ! unat s9))
                   (push_bit 6 (dec ! unat s9) OR push_bit 1 (dec ! unat s10) OR drop_bit 4 (dec ! unat s11))
                   (push_bit 4 (dec ! unat s11) OR drop_bit 1 (dec ! unat s12))
                   (push_bit 7 (dec ! unat s12) OR push_bit 2 (dec ! unat s13) OR drop_bit 3 (dec ! unat s14))
                   (push_bit 5 (dec ! unat s14) OR dec ! unat s15), True))"
  by (simp add: decode_def Let_def)

lemma decode_encode: "decode y (encode x) = Some (x, True)"
  unfolding encode_quints quints_def list.map decode_list dec_enc_mask last_char_check byte0_of_quints byte1_of_quints byte2_of_quints byte3_of_quints byte4_of_quints
  by (cases x) (simp add: byte_0x1F_is_mask)

lemma UnmarshalText_encode: "UnmarshalText y (encode x) = Some (x, None)"
  by (simp add: UnmarshalText_def length_encode encodedLen_def chars_ok_encode decode_encode)

section \<open>Encoding a decoded text\<close>

lemma chars_ok_iff: "chars_ok s = (\<forall>c\<in>set s. c \<in> set encoding)"
proof (induction s)
  case Nil show ?case by simp
next
  case (Cons c cs)
  have "(dec ! unat c \<noteq> maxByte) = (c \<in> set encoding)"
  proof
    assume "dec ! unat c \<noteq> maxByte" then show "c \<in> set encoding" by (rule dec_not_max)
  next
    assume "c \<in> set encoding"
    then obtain v where "dec ! unat c = v AND mask 5" using in_encoding_dec by blast
    moreover have "v AND mask 5 \<noteq> maxByte" using unat_mask5 [of v] by (auto simp add: maxByte_def)
    ultimately show "dec ! unat c \<noteq> maxByte" by simp
  qed
  with Cons show ?case by auto
qed

lemma list_of_length_16:
  "length s = 16 \<Longrightarrow> \<exists>s0 s1 s2 s3 s4 s5 s6 s7 s8 s9 s10 s11 s12 s13 s14 s15.
     s = [s0, s1, s2, s3, s4, s5, s6, s7, s8, s9, s10, s11, s12, s13, s14, s15]"
  by (simp add: numeral_eq_Suc length_Suc_conv) blast

lemma quint0_of_packed: "drop_bit 3 (push_bit 3 (a AND mask 5) OR drop_bit 2 (b AND mask 5)) AND mask 5 = a AND mask 5" for a b :: byte
  by (rule byte_eqI) (simp_all add: byte_bits)
lemma quint1_of_packed: "(drop_bit 6 (push_bit 6 (b AND mask 5) OR push_bit 1 (c AND mask 5) OR drop_bit 4 (d AND mask 5))
    OR push_bit 2 (push_bit 3 (a AND mask 5) OR drop_bit 2 (b AND mask 5))) AND mask 5 = b AND mask 5" for a b c d :: byte
  by (rule byte_eqI) (simp_all add: byte_bits)
lemma quint2_of_packed: "drop_bit 1 (push_bit 6 (b AND mask 5) OR push_bit 1 (c AND mask 5) OR drop_bit 4 (d AND mask 5)) AND mask 5 = c AND mask 5" for b c d :: byte
  by (rule byte_eqI) (simp_all add: byte_bits)
lemma quint3_of_packed: "(drop_bit 4 (push_bit 4 (d AND mask 5) OR drop_bit 1 (e AND mask 5))
    OR push_bit 4 (push_bit 6 (b AND mask 5) OR push_bit 1 (c AND mask 5) OR drop_bit 4 (d AND mask 5))) AND mask 5 = d AND mask 5" for b c d e :: byte
  by (rule byte_eqI) (simp_all add: byte_bits)
lemma quint4_of_packed: "(drop_bit 7 (push_bit 7 (e AND mask 5) OR push_bit 2 (f AND mask 5) OR drop_bit 3 (g AND mask 5))
    OR push_bit 1 (push_bit 4 (d AND mask 5) OR drop_bit 1 (e AND mask 5))) AND mask 5 = e AND mask 5" for d e f g :: byte
  by (rule byte_eqI) (simp_all add: byte_bits)
lemma quint5_of_packed: "drop_bit 2 (push_bit 7 (e AND mask 5) OR push_bit 2 (f AND mask 5) OR drop_bit 3 (g AND mask 5)) AND mask 5 = f AND mask 5" for e f g :: byte
  by (rule byte_eqI) (simp_all add: byte_bits)
lemma quint6_of_packed: "(drop_bit 5 (push_bit 5 (g AND mask 5) OR (h AND mask 5))
    OR push_bit 3 (push_bit 7 (e AND mask 5) OR push_bit 2 (f AND mask 5) OR drop_bit 3 (g AND mask 5))) AND mask 5 = g AND mask 5" for e f g h :: byte
  by (rule byte_eqI) (simp_all add: byte_bits)
lemma quint7_of_packed: "(push_bit 5 (g AND mask 5) OR (h AND mask 5)) AND mask 5 = h AND mask 5" for g h :: byte
  by (rule byte_eqI) (simp_all add: byte_bits)


lemma quint7_of_packed_0x1F: "(push_bit 5 (g AND mask 5) OR (h AND mask 5)) AND 0x1F = h AND mask 5" for g h :: byte
  unfolding byte_0x1F_is_mask by (rule quint7_of_packed)

lemma decode_masked:
  "decode y (map (\<lambda>v::byte. encoding ! unat (v AND mask 5))
       [v0, v1, v2, v3, v4, v5, v6, v7, v8, v9, v10, v11, v12, v13, v14, v15]) =
   Some (ID (push_bit 3 (v0 AND mask 5) OR drop_bit 2 (v1 AND mask 5))
            (push_bit 6 (v1 AND mask 5) OR push_bit 1 (v2 AND mask 5) OR drop_bit 4 (v3 AND mask 5))
            (push_bit 4 (v3 AND mask 5) OR drop_bit 1 (v4 AND mask 5))
            (push_bit 7 (v4 AND mask 5) OR push_bit 2 (v5 AND mask 5) OR drop_bit 3 (v6 AND mask 5))
            (push_bit 5 (v6 AND mask 5) OR (v7 AND mask 5))
            (push_bit 3 (v8 AND mask 5) OR drop_bit 2 (v9 AND mask 5))
            (push_bit 6 (v9 AND mask 5) OR push_bit 1 (v10 AND mask 5) OR drop_bit 4 (v11 AND mask 5))
            (push_bit 4 (v11 AND mask 5) OR drop_bit 1 (v12 AND mask 5))
            (push_bit 7 (v12 AND mask 5) OR push_bit 2 (v13 AND mask 5) OR drop_bit 3 (v14 AND mask 5))
            (push_bit 5 (v14 AND mask 5) OR (v15 AND mask 5)), True)"
  unfolding list.map decode_list dec_enc_mask quint7_of_packed_0x1F
  by simp

lemma encode_packed:
  "encode (ID (push_bit 3 (v0 AND mask 5) OR drop_bit 2 (v1 AND mask 5))
            (push_bit 6 (v1 AND mask 5) OR push_bit 1 (v2 AND mask 5) OR drop_bit 4 (v3 AND mask 5))
            (push_bit 4 (v3 AND mask 5) OR drop_bit 1 (v4 AND mask 5))
            (push_bit 7 (v4 AND mask 5) OR push_bit 2 (v5 AND mask 5) OR drop_bit 3 (v6 AND mask 5))
            (push_bit 5 (v6 AND mask 5) OR (v7 AND mask 5))
            (push_bit 3 (v8 AND mask 5) OR drop_bit 2 (v9 AND mask 5))
            (push_bit 6 (v9 AND mask 5) OR push_bit 1 (v10 AND mask 5) OR drop_bit 4 (v11 AND mask 5))
            (push_bit 4 (v11 AND mask 5) OR drop_bit 1 (v12 AND mask 5))
            (push_bit 7 (v12 AND mask 5) OR push_bit 2 (v13 AND mask 5) OR drop_bit 3 (v14 AND mask 5))
            (push_bit 5 (v14 AND mask 5) OR (v15 AND mask 5))) =
   map (\<lambda>v::byte. encoding ! unat (v AND mask 5))
       [v0, v1, v2, v3, v4, v5, v6, v7, v8, v9, v10, v11, v12, v13, v14, v15]"
  unfolding encode_quints quints_def ID.sel quint0_of_packed quint1_of_packed quint2_of_packed quint3_of_packed quint4_of_packed quint5_of_packed quint6_of_packed quint7_of_packed list.map
  by (rule refl)

lemma alphabet_list:
  "\<forall>c\<in>set s. c \<in> set encoding \<Longrightarrow> \<exists>vs. s = map (\<lambda>v::byte. encoding ! unat (v AND mask 5)) vs"
proof (induction s)
  case Nil then show ?case by simp
next
  case (Cons c cs)
  from Cons.IH Cons.prems obtain vs where vs: "cs = map (\<lambda>v::byte. encoding ! unat (v AND mask 5)) vs"
    by auto
  from Cons.prems obtain v :: byte where "encoding ! unat (v AND mask 5) = c"
    using in_encoding_dec [of c] by auto
  with vs have "c # cs = map (\<lambda>v::byte. encoding ! unat (v AND mask 5)) (v # vs)" by simp
  then show ?case by (rule exI)
qed

lemma decode_alphabet:
  assumes len: "length s = 16" and ok: "\<forall>c\<in>set s. c \<in> set encoding"
  shows "\<exists>x. decode y s = Some (x, True) \<and> encode x = s"
proof -
  from alphabet_list [OF ok] obtain vs where s: "s = map (\<lambda>v::byte. encoding ! unat (v AND mask 5)) vs"
    by blast
  with len have "length vs = 16" by simp
  from list_of_length_16 [OF this] obtain v0 v1 v2 v3 v4 v5 v6 v7 v8 v9 v10 v11 v12 v13 v14 v15
    where vs: "vs = [v0, v1, v2, v3, v4, v5, v6, v7, v8, v9, v10, v11, v12, v13, v14, v15]"
    by blast
  show ?thesis
    unfolding s vs decode_masked
    using encode_packed [of v0 v1 v2 v3 v4 v5 v6 v7 v8 v9 v10 v11 v12 v13 v14 v15]
    by blast
qed

section \<open>The text unmarshaller\<close>

lemma UnmarshalText_accepts:
  assumes "length s = 16" and "\<forall>c\<in>set s. c \<in> set encoding"
  shows "\<exists>x. UnmarshalText y s = Some (x, None) \<and> encode x = s"
proof -
  from decode_alphabet [OF assms] obtain x where "decode y s = Some (x, True)" "encode x = s"
    by blast
  with assms show ?thesis by (simp add: UnmarshalText_def encodedLen_def chars_ok_iff)
qed

lemma UnmarshalText_rejects:
  assumes "length s \<noteq> 16 \<or> (\<exists>c\<in>set s. c \<notin> set encoding)"
  shows "UnmarshalText y s = Some (y, Some ErrInvalidID)"
  using assms by (auto simp add: UnmarshalText_def encodedLen_def chars_ok_iff)

section \<open>Byte order and the order of encoded texts\<close>

lemma unat_byte_bits:
  "unat (w::byte) = of_bool (bit w 0) + 2 * of_bool (bit w 1) + 4 * of_bool (bit w 2)
     + 8 * of_bool (bit w 3) + 16 * of_bool (bit w 4) + 32 * of_bool (bit w 5)
     + 64 * of_bool (bit w 6) + 128 * of_bool (bit w 7)"
proof -
  have "take_bit 8 w = w" using take_bit_length_eq [of w] by simp
  then have "unat w = take_bit 8 (unat w)"
    by (simp add: unsigned_take_bit_eq [symmetric])
  also have "\<dots> = horner_sum of_bool 2 (map (bit (unat w)) [0..<8])"
    by (simp only: horner_sum_bit_eq_take_bit)
  also have "\<dots> = of_bool (bit w 0) + 2 * of_bool (bit w 1) + 4 * of_bool (bit w 2)
     + 8 * of_bool (bit w 3) + 16 * of_bool (bit w 4) + 32 * of_bool (bit w 5)
     + 64 * of_bool (bit w 6) + 128 * of_bool (bit w 7)"
    by (simp add: upt_rec [of _ "numeral _"] upt_rec [of 0] bit_unsigned_iff Suc_Suc_0_eq
        split del: split_of_bool)
  finally show ?thesis .
qed

lemma num_bound: "\<forall>x\<in>set xs. x < B \<Longrightarrow> num B xs < B ^ length xs"
proof (induction xs)
  case Nil then show ?case by simp
next
  case (Cons x xs)
  then have "num B xs < B ^ length xs" "x < B" by simp_all
  then have "x * B ^ length xs + num B xs < x * B ^ length xs + B ^ length xs" by simp
  also have "\<dots> = (x + 1) * B ^ length xs" by simp
  also have "\<dots> \<le> B * B ^ length xs" using \<open>x < B\<close> by (intro mult_right_mono) simp_all
  finally show ?case by simp
qed

lemma cmp_map_num:
  assumes "length us = length vs"
    and "\<And>u. u \<in> set us \<union> set vs \<Longrightarrow> f u < B"
    and "\<And>u v. u \<in> set us \<union> set vs \<Longrightarrow> v \<in> set us \<union> set vs \<Longrightarrow> (g u < g v) = (f u < f v)"
  shows "bytes_Compare (map g us) (map g vs) = cmp3 (num B (map f us)) (num B (map f vs))"
  using assms
proof (induction us vs rule: list_induct2)
  case Nil then show ?case by (simp add: cmp3_def)
next
  case (Cons u us v vs)
  let ?n = "length us"
  have bu: "num B (map f us) < B ^ ?n" using Cons.prems(1) by (intro num_bound [of "map f us" B, simplified]) auto
  have bv: "num B (map f vs) < B ^ ?n"
    using Cons.prems(1) Cons.hyps num_bound [of "map f vs" B] by auto
  have IH: "bytes_Compare (map g us) (map g vs) = cmp3 (num B (map f us)) (num B (map f vs))"
    using Cons.prems by (intro Cons.IH) auto
  have uv: "(g u < g v) = (f u < f v)" "(g v < g u) = (f v < f u)"
    using Cons.prems(2) [of u v] Cons.prems(2) [of v u] by auto
  consider "f u < f v" | "f v < f u" | "f u = f v" by linarith
  then show ?case
  proof cases
    case 1
    then have "(f u + 1) * B ^ ?n \<le> f v * B ^ ?n" by (intro mult_right_mono) simp_all
    then have "f u * B ^ ?n + num B (map f us) < f v * B ^ ?n + num B (map f vs)"
      using bu by (simp add: algebra_simps)
    with 1 uv show ?thesis using Cons.hyps by (simp add: cmp3_def)
  next
    case 2
    then have "(f v + 1) * B ^ ?n \<le> f u * B ^ ?n" by (intro mult_right_mono) simp_all
    then have "f v * B ^ ?n + num B (map f vs) < f u * B ^ ?n + num B (map f us)"
      using bv by (simp add: algebra_simps)
    with 2 uv show ?thesis using Cons.hyps by (simp add: cmp3_def)
  next
    case 3
    with uv IH show ?thesis using Cons.hyps by (simp add: cmp3_def)
  qed
qed


lemma block_value:
  fixes a b c d e :: byte
  shows "num 32 (map unat [drop_bit 3 a AND mask 5,
      (drop_bit 6 b OR push_bit 2 a) AND mask 5,
      drop_bit 1 b AND mask 5,
      (drop_bit 4 c OR push_bit 4 b) AND mask 5,
      (drop_bit 7 d OR push_bit 1 c) AND mask 5,
      drop_bit 2 d AND mask 5,
      (drop_bit 5 e OR push_bit 3 d) AND mask 5,
      e AND mask 5]) = num 256 (map unat [a, b, c, d, e])"
  apply (simp add: unat_byte_bits [of "_ AND _"] byte_bits split del: split_of_bool)
  apply (simp add: unat_byte_bits split del: split_of_bool)
  done


lemma num_append: "num B (xs @ ys) = num B xs * B ^ length ys + num B ys"
  by (induction xs) (simp_all add: algebra_simps power_add)

lemma quints_value: "num 32 (map unat (quints x)) = num 256 (map unat (Bytes x))"
proof -
  obtain a b c d e f g h i j where x: "x = ID a b c d e f g h i j" by (cases x)
  have q: "quints x = [drop_bit 3 a AND mask 5,
      (drop_bit 6 b OR push_bit 2 a) AND mask 5,
      drop_bit 1 b AND mask 5,
      (drop_bit 4 c OR push_bit 4 b) AND mask 5,
      (drop_bit 7 d OR push_bit 1 c) AND mask 5,
      drop_bit 2 d AND mask 5,
      (drop_bit 5 e OR push_bit 3 d) AND mask 5,
      e AND mask 5] @ [drop_bit 3 f AND mask 5,
      (drop_bit 6 g OR push_bit 2 f) AND mask 5,
      drop_bit 1 g AND mask 5,
      (drop_bit 4 h OR push_bit 4 g) AND mask 5,
      (drop_bit 7 i OR push_bit 1 h) AND mask 5,
      drop_bit 2 i AND mask 5,
      (drop_bit 5 j OR push_bit 3 i) AND mask 5,
      j AND mask 5]"
    unfolding x quints_def ID.sel by (simp only: append.simps)
  have b: "Bytes x = [a, b, c, d, e] @ [f, g, h, i, j]"
    unfolding x Bytes_def ID.sel by (simp only: append.simps)
  have p: "(32::nat) ^ 8 = 256 ^ 5" by simp
  show ?thesis
    unfolding q b map_append num_append block_value
    by (simp only: length_map list.size p) simp
qed

lemma encoding_strict: "sorted_wrt (<) encoding"
  by (simp add: encoding_lit)

lemma encoding_less_iff:
  assumes "i < 32" "j < 32"
  shows "(encoding ! i < encoding ! j) = (i < j)"
proof -
  have mono: "\<And>m n. m < n \<Longrightarrow> n < 32 \<Longrightarrow> encoding ! m < encoding ! n"
    using encoding_strict by (simp add: sorted_wrt_iff_nth_less length_encoding)
  show ?thesis
  proof (cases i j rule: linorder_cases)
    case less with mono assms show ?thesis by simp
  next
    case equal then show ?thesis by simp
  next
    case greater
    with mono [of j i] assms have "encoding ! j < encoding ! i" by simp
    with greater show ?thesis by simp
  qed
qed

lemma quints_lt32: "u \<in> set (quints x) \<Longrightarrow> unat u < 32"
  by (auto simp add: quints_def unat_mask5)

lemma Compare_encode_value:
  "bytes_Compare (encode x) (encode y) =
     cmp3 (num 256 (map unat (Bytes x))) (num 256 (map unat (Bytes y)))"
proof -
  have "bytes_Compare (map (\<lambda>v. encoding ! unat v) (quints x)) (map (\<lambda>v. encoding ! unat v) (quints y))
      = cmp3 (num 32 (map unat (quints x))) (num 32 (map unat (quints y)))"
  proof (rule cmp_map_num)
    show "length (quints x) = length (quints y)" by (simp add: quints_def)
  next
    fix u assume "u \<in> set (quints x) \<union> set (quints y)"
    then show "unat u < 32" using quints_lt32 by auto
  next
    fix u v assume "u \<in> set (quints x) \<union> set (quints y)" "v \<in> set (quints x) \<union> set (quints y)"
    then have "unat u < 32" "unat v < 32" using quints_lt32 by auto
    then show "(encoding ! unat u < encoding ! unat v) = (unat u < unat v)"
      by (rule encoding_less_iff)
  qed
  then show ?thesis by (simp only: encode_quints quints_value)
qed

lemma Compare_bytes_value:
  assumes "length us = length vs"
  shows "bytes_Compare us vs = cmp3 (num 256 (map unat us)) (num 256 (map unat vs))"
proof -
  have "bytes_Compare (map (\<lambda>v. v) us) (map (\<lambda>v. v) vs)
      = cmp3 (num 256 (map unat us)) (num 256 (map unat vs))"
  proof (rule cmp_map_num [OF assms])
    fix u :: byte show "unat u < 256" using unsigned_less [of u, where ?'a=nat] by simp
  next
    fix u v :: byte show "(u < v) = (unat u < unat v)" by (rule word_less_nat_alt)
  qed
  then show ?thesis by simp
qed

section \<open>Comparing on a prefix\<close>

lemma encode_Compare_Bytes:
  "bytes_Compare (encode x) (encode y) = bytes_Compare (Bytes x) (Bytes y)"
  using Compare_bytes_value [of "Bytes x" "Bytes y"]
  by (simp add: Compare_encode_value Bytes_def)

lemma bytes_Compare_append:
  "length xs = length ys \<Longrightarrow>
   bytes_Compare (xs @ xs') (ys @ ys') =
     (if bytes_Compare xs ys \<noteq> 0 then bytes_Compare xs ys else bytes_Compare xs' ys')"
  by (induction xs ys rule: list_induct2) simp_all

lemma bytes_Compare_eq_0: "length xs = length ys \<Longrightarrow> (bytes_Compare xs ys = 0) = (xs = ys)"
  by (induction xs ys rule: list_induct2) auto

lemma Bytes_split: "Bytes x = take 8 (Bytes x) @ [byte8 x, byte9 x]"
  by (simp add: Bytes_def)

lemma encode_Compare_prefix:
  "bytes_Compare (encode x) (encode y) =
     (if Compare x y \<noteq> 0 then Compare x y
      else bytes_Compare [byte8 x, byte9 x] [byte8 y, byte9 y])"
proof -
  have "bytes_Compare (Bytes x) (Bytes y) =
      bytes_Compare (take 8 (Bytes x) @ [byte8 x, byte9 x]) (take 8 (Bytes y) @ [byte8 y, byte9 y])"
    using Bytes_split [of x] Bytes_split [of y] by simp
  also have "\<dots> = (if Compare x y \<noteq> 0 then Compare x y
      else bytes_Compare [byte8 x, byte9 x] [byte8 y, byte9 y])"
    unfolding Compare_def by (rule bytes_Compare_append) (simp add: Bytes_def)
  finally show ?thesis by (simp only: encode_Compare_Bytes)
qed

section \<open>One step of the generator\<close>

lemma sint64_range: "- (2 ^ 63) \<le> sint (w::int64)" "sint (w::int64) < 2 ^ 63"
  using sint_ge [of w] sint_lt [of w] by simp_all

lemma sint64_of_int: "- (2 ^ 63) \<le> k \<Longrightarrow> k < 2 ^ 63 \<Longrightarrow> sint (word_of_int k :: int64) = k"
  by (simp add: sint_sbintrunc' signed_take_bit_int_eq_self)

lemma signed_take_bit_63_self: "- (2 ^ 63) \<le> k \<Longrightarrow> k < 2 ^ 63 \<Longrightarrow> signed_take_bit 63 k = (k::int)"
  by (simp add: signed_take_bit_int_eq_self)

lemma sdiv_million:
  fixes n :: int
  assumes "- (2 ^ 63) \<le> n" "n < 2 ^ 63"
  shows "- 9223372036854 \<le> n sdiv 1000000" "n sdiv 1000000 \<le> 9223372036854"
    "- 1000000 < n - (n sdiv 1000000) * 1000000" "n - (n sdiv 1000000) * 1000000 < 1000000"
    "- (2 ^ 63) \<le> (n sdiv 1000000) * 1000000" "(n sdiv 1000000) * 1000000 < 2 ^ 63"
  using assms by (auto simp add: signed_divide_int_def sgn_if abs_if split: if_splits)


lemma clock_tick_bound: "sint (clock_tick nano) < 2 ^ 57"
proof -
  define n where "n = sint nano"
  define m where "m = n sdiv 1000000"
  have n: "- (2 ^ 63) \<le> n" "n < 2 ^ 63" using sint64_range [of nano] by (simp_all add: n_def)
  note b = sdiv_million [OF n, folded m_def]
  have milli: "sint (div_int64 nano nanoPerMilli) = m"
    using b(1,2) by (simp add: div_int64_def nanoPerMilli_def n_def [symmetric] m_def [symmetric] sint64_of_int)
  have prod: "sint (div_int64 nano nanoPerMilli * nanoPerMilli) = m * 1000000"
    using b(5,6) by (simp add: sint_word_mult milli signed_take_bit_63_self) (simp add: nanoPerMilli_def signed_take_bit_63_self)
  have rem: "sint (nano - div_int64 nano nanoPerMilli * nanoPerMilli) = n - m * 1000000"
    using b(3,4) by (simp add: sint_word_diff prod n_def [symmetric] signed_take_bit_63_self)
  have seq: "sint (signed_drop_bit 8 (nano - div_int64 nano nanoPerMilli * nanoPerMilli)) = (n - m * 1000000) div 256"
    by (simp add: sint_signed_drop_bit_eq rem drop_bit_eq_div)
  have seqb: "- 3907 \<le> (n - m * 1000000) div 256" "(n - m * 1000000) div 256 \<le> 3906"
    using b(3,4) by linarith+
  have shl: "sint (push_bit 12 (div_int64 nano nanoPerMilli)) = m * 4096"
    using b(1,2) by (simp add: push_bit_eq_mult sint_word_mult milli signed_take_bit_63_self)
  have "sint (clock_tick nano) = m * 4096 + (n - m * 1000000) div 256"
    using b(1,2) seqb by (simp add: clock_tick_def Let_def sint_word_add shl seq signed_take_bit_63_self)
  with b(2) seqb show ?thesis by simp
qed

lemma shift_mask_ident: "signed_drop_bit 12 w * 4096 + (w AND 0xfff) = (w::int64)"
proof -
  have 1: "push_bit 12 (signed_drop_bit 12 w) = push_bit 12 (drop_bit 12 w)"
    by (rule bit_word_eqI) (auto simp add: bit_simps)
  have 2: "w AND 0xfff = take_bit 12 w"
    by (simp add: take_bit_eq_mask mask_eq_exp_minus_1)
  have "signed_drop_bit 12 w * 4096 = push_bit 12 (signed_drop_bit 12 w)"
    by (simp add: push_bit_eq_mult)
  then show ?thesis unfolding 1 2 by (simp only: bits_ident)
qed

lemma getTS_cases:
  "getTS nano l =
    (if clock_tick nano \<le>s l
     then ((signed_drop_bit 12 (l + 1), (l + 1) AND 0xfff), l + 1)
     else ((div_int64 nano nanoPerMilli,
            signed_drop_bit 8 (nano - div_int64 nano nanoPerMilli * nanoPerMilli)), clock_tick nano))"
  by (simp add: getTS_def clock_tick_def Let_def)

lemma getTS_step:
  assumes "sint l < 2 ^ 63 - 1" and "getTS nano l = ((m, s), l')"
  shows "l <s l'" and "m * 4096 + s = l'" and "sint l' \<le> max (sint l + 1) (2 ^ 57)"
proof -
  have inc: "sint (l + 1) = sint l + 1"
    using assms(1) sint64_range(1) [of l] by (simp add: sint_word_add signed_take_bit_63_self)
  show "l <s l'"
  proof (cases "clock_tick nano \<le>s l")
    case True
    with assms(2) have "l' = l + 1" by (simp add: getTS_cases)
    with inc show ?thesis by (simp add: word_sless_alt)
  next
    case False
    with assms(2) have "l' = clock_tick nano" by (simp add: getTS_cases)
    with False show ?thesis by (simp add: word_sless_alt word_sle_eq)
  qed
  show "m * 4096 + s = l'"
  proof (cases "clock_tick nano \<le>s l")
    case True
    with assms(2) have "l' = l + 1" "m = signed_drop_bit 12 (l + 1)" "s = (l + 1) AND 0xfff"
      by (auto simp add: getTS_cases)
    then show ?thesis by (simp only: shift_mask_ident)
  next
    case False
    with assms(2) have "l' = clock_tick nano" "m = div_int64 nano nanoPerMilli"
      "s = signed_drop_bit 8 (nano - div_int64 nano nanoPerMilli * nanoPerMilli)"
      by (auto simp add: getTS_cases)
    then show ?thesis by (simp add: clock_tick_def Let_def push_bit_eq_mult)
  qed
  show "sint l' \<le> max (sint l + 1) (2 ^ 57)"
  proof (cases "clock_tick nano \<le>s l")
    case True
    with assms(2) have "l' = l + 1" by (simp add: getTS_cases)
    with inc show ?thesis by simp
  next
    case False
    with assms(2) have "l' = clock_tick nano" by (simp add: getTS_cases)
    with clock_tick_bound [of nano] show ?thesis by simp
  qed
qed


lemma run_getTS_increasing:
  assumes "sint l + int (length ns) < 2 ^ 63" and "2 ^ 57 + int (length ns) < 2 ^ 63"
  shows "sorted_wrt (<s) (l # map snd (run_getTS l ns)) \<and>
         (\<forall>r\<in>set (run_getTS l ns). fst (fst r) * 4096 + snd (fst r) = snd r)"
  using assms
proof (induction ns arbitrary: l)
  case Nil then show ?case by simp
next
  case (Cons nano ns)
  obtain m s l' where r: "getTS nano l = ((m, s), l')" by (metis prod.collapse)
  from Cons.prems have lt: "sint l < 2 ^ 63 - 1" by simp
  note st = getTS_step [OF lt r]
  have "sint l' + int (length ns) < 2 ^ 63" using st(3) Cons.prems by (simp add: max_def split: if_splits)
  moreover have "2 ^ 57 + int (length ns) < (2::int) ^ 63" using Cons.prems(2) by simp
  ultimately have IH: "sorted_wrt (<s) (l' # map snd (run_getTS l' ns))"
      "\<forall>r\<in>set (run_getTS l' ns). fst (fst r) * 4096 + snd (fst r) = snd r"
    using Cons.IH [of l'] by simp_all
  have "\<forall>x\<in>set (map snd (run_getTS l' ns)). l <s x"
    using IH(1) st(1) by (auto intro: signed.less_trans)
  with IH st(1,2) show ?case by (simp add: r)
qed

text \<open>The example of the package documentation.\<close>

lemma encode_example:
  "encode (ID 1 149 115 246 21 192 7 73 252 216) = map of_char ''06bq7xhnr03mlz6r''"
  by code_simp

section \<open>Claims about the codec\<close>

text \<open>C1 (round trip): for every 10-byte value \<open>x\<close>, decoding the sixteen characters that
  encoding \<open>x\<close> produces returns exactly \<open>x\<close>, without error. This holds for
  \<open>FromString\<close> after \<open>String\<close> and for the inner \<open>decode\<close> after \<open>encode\<close>,
  whatever the receiver held before.\<close>
theorem decode_encode_roundtrip:
  "FromString (String x) = Some (x, None) \<and> decode y (encode x) = Some (x, True)"
  by (simp add: FromString_def String_def UnmarshalText_encode decode_encode)

theorem decode_encode_roundtrip_witness:
  "FromString (String (ID 1 149 115 246 21 192 7 73 252 216)) =
     Some (ID 1 149 115 246 21 192 7 73 252 216, None) \<and>
   String (ID 1 149 115 246 21 192 7 73 252 216) = map of_char ''06bq7xhnr03mlz6r''"
  using decode_encode_roundtrip [of "ID 1 149 115 246 21 192 7 73 252 216"]
  by (simp add: String_def encode_example)

text \<open>C5: every text that the decoder accepts (it returns an identifier and no error) is
  reproduced exactly by encoding the identifier it returned.\<close>
theorem encode_decode_roundtrip:
  "FromString s = Some (x, None) \<Longrightarrow> String x = s"
proof -
  assume a: "FromString s = Some (x, None)"
  have "length s = 16 \<and> (\<forall>c\<in>set s. c \<in> set encoding)"
  proof (rule ccontr)
    assume "\<not> ?thesis"
    then have "length s \<noteq> 16 \<or> (\<exists>c\<in>set s. c \<notin> set encoding)" by blast
    from UnmarshalText_rejects [OF this] a show False by (simp add: FromString_def)
  qed
  then obtain x' where "UnmarshalText (ID 0 0 0 0 0 0 0 0 0 0) s = Some (x', None)" "encode x' = s"
    using UnmarshalText_accepts by blast
  with a show ?thesis by (simp add: FromString_def String_def)
qed


theorem encode_decode_roundtrip_witness:
  "FromString (map of_char ''06bq7xhnr03mlz6r'') = Some (ID 1 149 115 246 21 192 7 73 252 216, None) \<and>
   String (ID 1 149 115 246 21 192 7 73 252 216) = map of_char ''06bq7xhnr03mlz6r''"
proof -
  have h: "FromString (map of_char ''06bq7xhnr03mlz6r'') = Some (ID 1 149 115 246 21 192 7 73 252 216, None)"
    using UnmarshalText_encode [of "ID 0 0 0 0 0 0 0 0 0 0" "ID 1 149 115 246 21 192 7 73 252 216"]
    unfolding encode_example FromString_def .
  from h encode_decode_roundtrip [OF h] show ?thesis by (rule conjI)
qed

lemma UnmarshalText_total: "UnmarshalText y s \<noteq> None"
proof (cases "length s = 16 \<and> (\<forall>c\<in>set s. c \<in> set encoding)")
  case True
  then show ?thesis using UnmarshalText_accepts [of s y] by auto
next
  case False
  then have "length s \<noteq> 16 \<or> (\<exists>c\<in>set s. c \<notin> set encoding)" by blast
  from UnmarshalText_rejects [OF this] show ?thesis by simp
qed

lemma decode_False_imp:
  "decode y s = Some (x, False) \<Longrightarrow> length s \<noteq> 16 \<or> (\<exists>c\<in>set s. c \<notin> set encoding)"
  using decode_alphabet [of s y] by auto

lemma encoding_excludes:
  "set (map of_char ''aiou'') \<inter> set encoding = {}"
  "set (map of_char ''ABCDEFGHIJKLMNOPQRSTUVWXYZ'') \<inter> set encoding = {}"
  by (simp_all add: encoding_lit)

lemma distinct_encoding: "distinct encoding"
  by (simp add: encoding_lit)

text \<open>C6: decoding never panics, and it returns \<open>ErrInvalidID\<close> exactly when the text is not
  sixteen bytes long, or holds a byte outside the alphabet, or the check of the last
  character inside \<open>decode\<close> fails; in every other case it returns no error. The alphabet
  has 32 distinct symbols, none of them \<open>a\<close>, \<open>i\<close>, \<open>o\<close>, \<open>u\<close> or an upper-case
  letter.\<close>
theorem decode_error_iff:
  "(\<exists>r. UnmarshalText y s = Some r \<and>
     (snd r = Some ErrInvalidID) =
       (length s \<noteq> 16 \<or> (\<exists>c\<in>set s. c \<notin> set encoding) \<or> (\<exists>x. decode y s = Some (x, False))) \<and>
     (snd r = None) = (length s = 16 \<and> (\<forall>c\<in>set s. c \<in> set encoding))) \<and>
   (\<exists>r. FromString s = Some r \<and>
     (snd r = Some ErrInvalidID) =
       (length s \<noteq> 16 \<or> (\<exists>c\<in>set s. c \<notin> set encoding) \<or>
        (\<exists>x. decode (ID 0 0 0 0 0 0 0 0 0 0) s = Some (x, False))) \<and>
     (snd r = None) = (length s = 16 \<and> (\<forall>c\<in>set s. c \<in> set encoding))) \<and>
   length encoding = 32 \<and> distinct encoding \<and>
   set (map of_char ''aiou'') \<inter> set encoding = {} \<and>
   set (map of_char ''ABCDEFGHIJKLMNOPQRSTUVWXYZ'') \<inter> set encoding = {}"
proof -
  have g: "\<exists>r. UnmarshalText z s = Some r \<and>
     (snd r = Some ErrInvalidID) =
       (length s \<noteq> 16 \<or> (\<exists>c\<in>set s. c \<notin> set encoding) \<or> (\<exists>x. decode z s = Some (x, False))) \<and>
     (snd r = None) = (length s = 16 \<and> (\<forall>c\<in>set s. c \<in> set encoding))" for z
  proof (cases "length s = 16 \<and> (\<forall>c\<in>set s. c \<in> set encoding)")
    case True
    then obtain x where "UnmarshalText z s = Some (x, None)" "decode z s = Some (x, True)"
      using UnmarshalText_accepts [of s z] decode_alphabet [of s z]
      by (auto simp add: UnmarshalText_def encodedLen_def chars_ok_iff)
    with True show ?thesis by auto
  next
    case False
    then have r: "length s \<noteq> 16 \<or> (\<exists>c\<in>set s. c \<notin> set encoding)" by blast
    from UnmarshalText_rejects [OF r, of z] r show ?thesis by auto
  qed
  have f: "\<exists>r. FromString s = Some r \<and>
     (snd r = Some ErrInvalidID) =
       (length s \<noteq> 16 \<or> (\<exists>c\<in>set s. c \<notin> set encoding) \<or>
        (\<exists>x. decode (ID 0 0 0 0 0 0 0 0 0 0) s = Some (x, False))) \<and>
     (snd r = None) = (length s = 16 \<and> (\<forall>c\<in>set s. c \<in> set encoding))"
    using g [of "ID 0 0 0 0 0 0 0 0 0 0"] by (simp only: FromString_def)
  from g [of y] f length_encoding distinct_encoding encoding_excludes show ?thesis
    by (intro conjI)
qed

theorem decode_error_iff_witness:
  "\<exists>r. FromString (map of_char ''o6bqer9xnr09hyq5'') = Some r \<and> snd r = Some ErrInvalidID"
proof -
  have "\<exists>c\<in>set (map of_char ''o6bqer9xnr09hyq5'' :: byte list). c \<notin> set encoding"
    by (simp add: encoding_lit)
  with decode_error_iff [of nilID "map of_char ''o6bqer9xnr09hyq5''"] show ?thesis by blast
qed

text \<open>C7: whenever \<open>FromString\<close> returns an error, the identifier returned with it is the
  all-zero value.\<close>
theorem decode_failure_nil:
  "FromString s = Some (x, Some e) \<Longrightarrow> x = nilID \<and> x = ID 0 0 0 0 0 0 0 0 0 0"
proof -
  assume a: "FromString s = Some (x, Some e)"
  show ?thesis
  proof (cases "length s = 16 \<and> (\<forall>c\<in>set s. c \<in> set encoding)")
    case True
    then show ?thesis using UnmarshalText_accepts [of s "ID 0 0 0 0 0 0 0 0 0 0"] a
      by (auto simp add: FromString_def)
  next
    case False
    then have "length s \<noteq> 16 \<or> (\<exists>c\<in>set s. c \<notin> set encoding)" by blast
    from UnmarshalText_rejects [OF this, of "ID 0 0 0 0 0 0 0 0 0 0"] a show ?thesis
      by (simp add: FromString_def nilID_def)
  qed
qed

theorem decode_failure_nil_witness:
  "FromString (map of_char ''06bqer9'') = Some (nilID, Some ErrInvalidID) \<and> nilID = ID 0 0 0 0 0 0 0 0 0 0"
proof -
  have h: "FromString (map of_char ''06bqer9'') = Some (nilID, Some ErrInvalidID)"
    by (simp add: FromString_def UnmarshalText_def encodedLen_def nilID_def)
  from decode_failure_nil [OF h] h show ?thesis by simp
qed

text \<open>Called on a receiver that already holds an identifier, \<open>UnmarshalText\<close> leaves the
  receiver as it was when the length or the alphabet check fails; only the branch after
  \<open>decode\<close> stores \<open>nilID\<close>.\<close>

lemma UnmarshalText_failure_receiver:
  "UnmarshalText y s = Some (x, Some e) \<Longrightarrow> x = y \<or> x = nilID"
  by (auto simp add: UnmarshalText_def split: if_splits option.splits)

text \<open>C10: on a text of sixteen bytes that all belong to the alphabet, \<open>decode\<close> returns
  \<open>True\<close>, so \<open>UnmarshalText\<close> never takes the error branch that follows its length and
  alphabet checks.\<close>
theorem self_check_unreachable:
  "length s = 16 \<Longrightarrow> \<forall>c\<in>set s. c \<in> set encoding \<Longrightarrow>
     (\<exists>x. decode y s = Some (x, True)) \<and> (\<exists>x. UnmarshalText y s = Some (x, None))"
  using decode_alphabet [of s y] UnmarshalText_accepts [of s y] by blast

theorem self_check_unreachable_witness:
  "(\<exists>x. decode nilID (map of_char ''0000000000000000'') = Some (x, True)) \<and>
   (\<exists>x. UnmarshalText nilID (map of_char ''0000000000000000'') = Some (x, None))"
proof -
  have 1: "length (map of_char ''0000000000000000'' :: byte list) = 16" by simp
  have 2: "\<forall>c\<in>set (map of_char ''0000000000000000'' :: byte list). c \<in> set encoding"
    by (simp add: encoding_lit)
  from self_check_unreachable [OF 1 2] show ?thesis .
qed

text \<open>C9: the all-zero identifier is nil and encodes to sixteen characters \<open>0\<close>; every other
  identifier is not nil.\<close>
theorem nil_sentinel:
  "IsNil (ID 0 0 0 0 0 0 0 0 0 0) \<and> IsNil nilID \<and>
   String nilID = map of_char ''0000000000000000'' \<and>
   (\<forall>x. x \<noteq> ID 0 0 0 0 0 0 0 0 0 0 \<longrightarrow> \<not> IsNil x)"
  by (simp add: IsNil_def nilID_def String_def encode_def encoding_lit)

theorem nil_sentinel_witness:
  "ID 0 0 0 0 0 0 0 0 0 1 \<noteq> ID 0 0 0 0 0 0 0 0 0 0 \<and> \<not> IsNil (ID 0 0 0 0 0 0 0 0 0 1)"
  using nil_sentinel by simp

section \<open>Claims about ordering\<close>

text \<open>C4: for any two identifiers, comparing their ten raw bytes byte-wise gives the same
  result as comparing their sixteen-character encodings lexicographically.\<close>
theorem encode_order_preserving:
  "bytes_Compare (Bytes x) (Bytes y) = bytes_Compare (String x) (String y)"
  by (simp add: String_def encode_Compare_Bytes)

theorem encode_order_preserving_witness:
  "bytes_Compare (Bytes (ID 0 220 106 207 171 255 0 0 0 0)) (Bytes (ID 0 162 72 52 205 146 0 0 104 142)) = 1 \<and>
   bytes_Compare (String (ID 0 220 106 207 171 255 0 0 0 0)) (String (ID 0 162 72 52 205 146 0 0 104 142)) = 1"
proof -
  have "bytes_Compare (Bytes (ID 0 220 106 207 171 255 0 0 0 0)) (Bytes (ID 0 162 72 52 205 146 0 0 104 142)) = 1"
    by (simp add: Bytes_def)
  with encode_order_preserving [of "ID 0 220 106 207 171 255 0 0 0 0" "ID 0 162 72 52 205 146 0 0 104 142"]
  show ?thesis by simp
qed

text \<open>\<open>Compare\<close> reads only the first eight bytes, \<open>encode\<close> all ten: two identifiers
  that differ in the last byte alone compare equal, and their encodings do not.\<close>
theorem compare_vs_encoded_counterexample:
  "Compare (ID 0 0 0 0 0 0 0 0 0 0) (ID 0 0 0 0 0 0 0 0 0 1) = 0 \<and>
   bytes_Compare (String (ID 0 0 0 0 0 0 0 0 0 0)) (String (ID 0 0 0 0 0 0 0 0 0 1)) = - 1 \<and>
   sgn (Compare (ID 0 0 0 0 0 0 0 0 0 0) (ID 0 0 0 0 0 0 0 0 0 1)) \<noteq>
   sgn (bytes_Compare (String (ID 0 0 0 0 0 0 0 0 0 0)) (String (ID 0 0 0 0 0 0 0 0 0 1)))"
  by (simp add: Compare_def Bytes_def String_def encode_def encoding_lit)

text \<open>C3, as the code has it: whenever \<open>Compare\<close> is not zero, it is the lexicographic
  comparison of the two encodings; when it is zero, which is exactly when the first eight
  bytes agree, the encodings compare as the two trailing random bytes do.\<close>

theorem compare_vs_encoded:
  "(Compare x y \<noteq> 0 \<longrightarrow> bytes_Compare (String x) (String y) = Compare x y) \<and>
   (Compare x y = 0 \<longrightarrow>
      bytes_Compare (String x) (String y) = bytes_Compare [byte8 x, byte9 x] [byte8 y, byte9 y]) \<and>
   (Compare x y = 0) = (take 8 (Bytes x) = take 8 (Bytes y))"
proof -
  have "(Compare x y = 0) = (take 8 (Bytes x) = take 8 (Bytes y))"
    unfolding Compare_def by (rule bytes_Compare_eq_0) (simp add: Bytes_def)
  then show ?thesis by (simp add: String_def encode_Compare_prefix)
qed

theorem compare_vs_encoded_witness:
  "Compare (ID 0 220 106 207 171 255 0 0 0 0) (ID 0 162 72 52 205 146 0 0 104 142) = 1 \<and>
   bytes_Compare (String (ID 0 220 106 207 171 255 0 0 0 0)) (String (ID 0 162 72 52 205 146 0 0 104 142)) = 1"
proof -
  have h: "Compare (ID 0 220 106 207 171 255 0 0 0 0) (ID 0 162 72 52 205 146 0 0 104 142) = 1"
    by (simp add: Compare_def Bytes_def)
  with compare_vs_encoded [of "ID 0 220 106 207 171 255 0 0 0 0" "ID 0 162 72 52 205 146 0 0 104 142"]
  show ?thesis by simp
qed

section \<open>Claims about the generator\<close>

text \<open>C2: from a stored \<open>lastTime\<close> of at most \<open>2 ^ 62\<close> (the program starts at 0) and for any
  sequence of fewer than \<open>2 ^ 62\<close> calls, whatever the clock reads at each call, the combined
  values \<open>milli * 4096 + seq\<close> of the returned pairs are strictly increasing in the signed
  64-bit order, each greater than all before it and than the initial \<open>lastTime\<close>, and each
  is the \<open>lastTime\<close> stored by its call.\<close>
theorem getTS_strictly_increasing:
  assumes "sint l \<le> 2 ^ 62" and "length ns < 2 ^ 62"
  shows "sorted_wrt (<s) (l # map (tick \<circ> fst) (run_getTS l ns)) \<and>
         map (tick \<circ> fst) (run_getTS l ns) = map snd (run_getTS l ns)"
proof -
  from assms(2) have "int (length ns) < 2 ^ 62" by (simp add: of_nat_less_iff [of _ "2 ^ 62", simplified])
  with assms(1) have a: "sint l + int (length ns) < 2 ^ 63" "2 ^ 57 + int (length ns) < 2 ^ 63"
    by simp_all
  from run_getTS_increasing [OF a]
  have s: "sorted_wrt (<s) (l # map snd (run_getTS l ns))"
    and e: "\<forall>r\<in>set (run_getTS l ns). fst (fst r) * 4096 + snd (fst r) = snd r"
    by simp_all
  from e have m: "map (tick \<circ> fst) (run_getTS l ns) = map snd (run_getTS l ns)"
    by (simp add: tick_def)
  from s show ?thesis unfolding m by (rule conjI) (rule refl)
qed

text \<open>Three calls, the clock stalled at the second and running backwards at the third.\<close>

lemma run_getTS_example:
  "run_getTS 0 [1741312454738123456, 1741312454738123456, 1741312454738000000] =
    [((1741312454738, 482), 7132415814607330),
     ((1741312454738, 483), 7132415814607331),
     ((1741312454738, 484), 7132415814607332)]"
  by code_simp

theorem getTS_strictly_increasing_witness:
  "sorted_wrt (<s)
     (0 # map (tick \<circ> fst)
            (run_getTS 0 [1741312454738123456, 1741312454738123456, 1741312454738000000])) \<and>
   map (tick \<circ> fst)
     (run_getTS 0 [1741312454738123456, 1741312454738123456, 1741312454738000000]) =
     [7132415814607330, 7132415814607331, 7132415814607332]"
proof -
  have 1: "sint (0 :: int64) \<le> 2 ^ 62" by simp
  have 2: "length [1741312454738123456, 1741312454738123456, 1741312454738000000 :: int64] < 2 ^ 62" by simp
  have 3: "map snd (run_getTS 0 [1741312454738123456, 1741312454738123456, 1741312454738000000]) =
     [7132415814607330, 7132415814607331, 7132415814607332]"
    unfolding run_getTS_example by simp
  from getTS_strictly_increasing [OF 1 2] show ?thesis
    unfolding 3 [symmetric] .
qed

text \<open>The bound on the number of calls is what keeps \<open>lastTime + 1\<close> from wrapping: at the
  largest \<^verbatim>\<open>int64\<close> the increment yields the smallest one.\<close>

lemma getTS_wraps_at_max:
  "getTS 0 0x7fffffffffffffff = ((0xfff8000000000000, 0), 0x8000000000000000)"
  by code_simp

end
